theory Spec2Isabelle
  imports Complex_Main "HOL-Library.Word" "HOL-Library.Stream"
begin

section \<open>The glyph-rain effect of static/app.js (initializeMatrixEffect)\<close>

text \<open>
  The closure variables \<open>columns\<close>, \<open>rows\<close>, \<open>drops\<close>, \<open>freezeMap\<close> and the size of the
  visible canvas are the fields of one record; every function of the closure takes the
  record and returns the updated one.

  \<^item> \<open>Math.random()\<close> is a stream of draws, consumed from the front, one per call, in the
    order of the calls of the source. A draw is a real number; the source's doubles are
    read as the real numbers they denote and its decimal literals as the decimal
    fractions written.
  \<^item> A JavaScript string is the list of its UTF-16 code units.
  \<^item> A statement that throws is a result \<open>Inl\<close> of a sum type.
  \<^item> The calls on the visible canvas are returned as a list of paint operations.
\<close>

type_synonym rng = "real stream"

type_synonym js_string = "16 word list"

datatype js_error = TypeError | IndexSizeError

record matrix_state =
  canvas_width :: nat
  canvas_height :: nat
  columns :: nat
  rows :: nat
  drops :: "nat list"
  freezeMap :: "nat list list"

definition fontSize :: nat where
  "fontSize = 14"

definition freezeSpeed :: real where
  "freezeSpeed = 6 / 1000"

definition js_str :: "string \<Rightarrow> js_string" where
  "js_str s = map of_char s"

text \<open>
  \<open>xs[i]\<close> of JavaScript: \<open>undefined\<close> (here \<open>None\<close>) outside the array.
\<close>

definition js_index :: "'a list \<Rightarrow> nat \<Rightarrow> 'a option" where
  "js_index xs i = (if i < length xs then Some (xs ! i) else None)"

subsection \<open>resizeCanvas\<close>

text \<open>
  \<open>rect.width\<close> and \<open>rect.height\<close> of \<open>getBoundingClientRect\<close> are the two real
  arguments (they are never negative). \<open>Array.from({length: columns}, () => ...)\<close> calls
  \<open>Math.random\<close> once per column, in order.
\<close>

definition random_row :: "nat \<Rightarrow> real \<Rightarrow> nat" where
  "random_row rws u = nat \<lfloor>u * real rws\<rfloor>"

definition resizeCanvas :: "real \<Rightarrow> real \<Rightarrow> rng \<Rightarrow> matrix_state \<times> rng" where
  "resizeCanvas rect_width rect_height r =
     (let w = nat (max \<lfloor>rect_width\<rfloor> 240);
          h = nat (max \<lfloor>rect_height\<rfloor> 280);
          cs = nat \<lceil>real w / real fontSize\<rceil>;
          rs = nat \<lceil>real h / real fontSize\<rceil>
      in (\<lparr>canvas_width = w, canvas_height = h, columns = cs, rows = rs,
           drops = map (random_row rs) (stake cs r),
           freezeMap = replicate rs (replicate cs 0)\<rparr>,
          sdrop cs r))"

subsection \<open>drawTargetToMap: the lines of the text\<close>

text \<open>
  The characters that \<open>trim\<close> and \<open>trimEnd\<close> remove: the white space and line
  terminator code units of ECMAScript.
\<close>

definition is_ws :: "16 word \<Rightarrow> bool" where
  "is_ws c \<longleftrightarrow>
     c = 0x09 \<or> c = 0x0A \<or> c = 0x0B \<or> c = 0x0C \<or> c = 0x0D \<or> c = 0x20 \<or> c = 0xA0 \<or>
     c = 0x1680 \<or> (0x2000 \<le> c \<and> c \<le> 0x200A) \<or> c = 0x2028 \<or> c = 0x2029 \<or>
     c = 0x202F \<or> c = 0x205F \<or> c = 0x3000 \<or> c = 0xFEFF"

definition trimStart :: "js_string \<Rightarrow> js_string" where
  "trimStart s = dropWhile is_ws s"

definition trimEnd :: "js_string \<Rightarrow> js_string" where
  "trimEnd s = rev (dropWhile is_ws (rev s))"

definition trim :: "js_string \<Rightarrow> js_string" where
  "trim s = trimEnd (trimStart s)"

text \<open>
  \<open>s.split('\n')\<close>: the pieces between the line feeds; a string without a line feed,
  the empty one too, is one piece.
\<close>

fun split_nl :: "js_string \<Rightarrow> js_string list" where
  "split_nl [] = [[]]"
| "split_nl (c # cs) =
     (if c = 0x0A then [] # split_nl cs
      else (c # hd (split_nl cs)) # tl (split_nl cs))"

definition default_phrase :: js_string where
  "default_phrase = js_str ''TOLL BOT''"

definition lineList :: "js_string \<Rightarrow> js_string list" where
  "lineList text =
     take 6 (filter (\<lambda>line. length line > 0) (map trimEnd (split_nl (trim text))))"

definition lines_of :: "js_string \<Rightarrow> js_string list" where
  "lines_of text = (if length (lineList text) > 0 then lineList text else [default_phrase])"

text \<open>
  The normalisation as the specification words it: split on line breaks, trim trailing
  white space per line, discard empty lines, keep at most the first 6.
\<close>

definition spec_normalize :: "js_string \<Rightarrow> js_string list" where
  "spec_normalize text = take 6 (filter (\<lambda>line. line \<noteq> []) (map trimEnd (split_nl text)))"

subsection \<open>drawTargetToMap: the font size\<close>

text \<open>
  \<open>Math.max(...lines.map((line) => line.length), 1)\<close>: the lengths are folded into the
  last argument.
\<close>

definition maxLen :: "js_string list \<Rightarrow> nat" where
  "maxLen ls = fold max (map length ls) 1"

definition textSize :: "nat \<Rightarrow> nat \<Rightarrow> js_string list \<Rightarrow> int" where
  "textSize cs rs ls =
     max 6 \<lfloor>min (real cs / (real (maxLen ls) * (62 / 100)))
                (real rs / (real (length ls) * (12 / 10)))\<rfloor>"

subsection \<open>drawTargetToMap: the off-screen canvas and the target grid\<close>

text \<open>
  The off-screen canvas is outside the program. What the program hands to it is a
  request: the size of the bitmap, the font size and one \<open>fillText\<close> call
  (line, x, y) per line. What it gets back is the byte array of \<open>getImageData\<close>, four
  bytes per pixel. \<open>getContext('2d')\<close> may return \<open>null\<close>: the context is an option.
\<close>

record raster_request =
  rq_width :: nat
  rq_height :: nat
  rq_font_px :: int
  rq_texts :: "(js_string \<times> real \<times> real) list"

type_synonym canvas2d = "raster_request \<Rightarrow> 8 word list"

text \<open>
  \<open>alpha > 30 ? 1 : 0\<close> for the byte at \<open>(y * columns + x) * 4 + 3\<close>; a read outside the
  array is \<open>undefined\<close>, and \<open>undefined > 30\<close> is false.
\<close>

definition occupied :: "8 word list \<Rightarrow> nat \<Rightarrow> nat \<Rightarrow> nat \<Rightarrow> nat" where
  "occupied imageData cs y x =
     (case js_index imageData ((y * cs + x) * 4 + 3) of
        None \<Rightarrow> 0
      | Some alpha \<Rightarrow> if alpha > 30 then 1 else 0)"

text \<open>\<open>g[y][x] = v\<close> for a cell inside the grid.\<close>

definition set_cell :: "nat list list \<Rightarrow> nat \<Rightarrow> nat \<Rightarrow> nat \<Rightarrow> nat list list" where
  "set_cell g y x v = g[y := (g ! y)[x := v]]"

definition target_grid :: "8 word list \<Rightarrow> nat \<Rightarrow> nat \<Rightarrow> nat list list" where
  "target_grid imageData cs rs =
     fold (\<lambda>y. fold (\<lambda>x target. set_cell target y x (occupied imageData cs y x)) [0..<cs])
       [0..<rs] (replicate rs (replicate cs 0))"

definition raster_request_of :: "nat \<Rightarrow> nat \<Rightarrow> js_string list \<Rightarrow> raster_request" where
  "raster_request_of cs rs ls =
     (let sz = textSize cs rs ls;
          centerX = real cs / 2;
          lineHeight = real_of_int sz * (12 / 10);
          startY = real rs / 2 - ((real (length ls) - 1) * lineHeight) / 2
      in \<lparr>rq_width = cs, rq_height = rs, rq_font_px = sz,
          rq_texts = map (\<lambda>(index, line). (line, centerX, startY + real index * lineHeight))
                       (enumerate 0 ls)\<rparr>)"

text \<open>
  \<open>getImageData(0, 0, columns, rows)\<close> throws an \<open>IndexSizeError\<close> when a side is zero.
\<close>

definition drawTargetToMap ::
  "canvas2d option \<Rightarrow> js_string \<Rightarrow> matrix_state \<Rightarrow> js_error + matrix_state" where
  "drawTargetToMap localCtx text st =
     (case localCtx of
        None \<Rightarrow> Inr st
      | Some ctx \<Rightarrow>
          if columns st = 0 \<or> rows st = 0 then Inl IndexSizeError
          else
            let imageData = ctx (raster_request_of (columns st) (rows st) (lines_of text))
            in Inr (st\<lparr>freezeMap := target_grid imageData (columns st) (rows st)\<rparr>))"

subsection \<open>diffuseFreeze\<close>

text \<open>A counting loop whose body may throw; the exception ends the loop.\<close>

fun for_loop :: "(nat \<Rightarrow> 's \<Rightarrow> js_error + 's) \<Rightarrow> nat list \<Rightarrow> 's \<Rightarrow> js_error + 's" where
  "for_loop body [] s = Inr s"
| "for_loop body (i # is) s =
     (case body i s of Inl e \<Rightarrow> Inl e | Inr s' \<Rightarrow> for_loop body is s')"

text \<open>
  The body of the inner loop. \<open>freezeMap[y][x]\<close> throws a \<open>TypeError\<close> when
  \<open>freezeMap[y]\<close> is \<open>undefined\<close>; when only \<open>x\<close> is outside the row, the value read is
  \<open>undefined\<close> and neither comparison holds. \<open>Math.random\<close> is called for a cell in
  state 1 or 2 only.
\<close>

definition diffuse_cell ::
  "nat \<Rightarrow> nat \<Rightarrow> nat list list \<times> rng \<Rightarrow> js_error + (nat list list \<times> rng)" where
  "diffuse_cell y x s =
     (case s of (fm, r) \<Rightarrow>
        (case js_index fm y of
           None \<Rightarrow> Inl TypeError
         | Some row \<Rightarrow>
             (case js_index row x of
                None \<Rightarrow> Inr (fm, r)
              | Some v \<Rightarrow>
                  if v = 1 then
                    (if shd r < freezeSpeed then Inr (set_cell fm y x 2, stl r)
                     else Inr (fm, stl r))
                  else if v = 2 then
                    (if shd r < 1 / 1000 then Inr (set_cell fm y x 1, stl r)
                     else Inr (fm, stl r))
                  else Inr (fm, r))))"

definition diffuseFreeze :: "matrix_state \<Rightarrow> rng \<Rightarrow> js_error + (matrix_state \<times> rng)" where
  "diffuseFreeze st r =
     (case for_loop (\<lambda>y. for_loop (\<lambda>x. diffuse_cell y x) [0..<columns st]) [0..<rows st]
             (freezeMap st, r) of
        Inl e \<Rightarrow> Inl e
      | Inr (fm, r') \<Rightarrow> Inr (st\<lparr>freezeMap := fm\<rparr>, r'))"

subsection \<open>draw\<close>

datatype paint =
  FillRect string nat nat nat nat
| FillText string char nat nat

text \<open>\<open>freezeMap[row]?.[column] ?? 0\<close>\<close>

definition cell_state :: "nat list list \<Rightarrow> nat \<Rightarrow> nat \<Rightarrow> nat" where
  "cell_state fm row column =
     (case js_index fm row of
        None \<Rightarrow> 0
      | Some rw \<Rightarrow> (case js_index rw column of None \<Rightarrow> 0 | Some v \<Rightarrow> v))"

text \<open>\<open>glyphs[Math.random() > 0.5 ? 1 : 0]\<close>\<close>

definition glyph :: "real \<Rightarrow> char" where
  "glyph u = (if u > 1 / 2 then CHR ''1'' else CHR ''0'')"

text \<open>
  \<open>row > rows || Math.random() > 0.975 ? 0 : row + 1\<close>: the draw is made only when the
  first test fails.
\<close>

definition advance :: "nat \<Rightarrow> nat \<Rightarrow> rng \<Rightarrow> nat \<times> rng" where
  "advance rs row r =
     (if row > rs then (0, r)
      else if shd r > 975 / 1000 then (0, stl r)
      else (row + 1, stl r))"

text \<open>
  The body of the loop over the columns, on the cursor bank, the paint operations so far
  and the random draws. \<open>drops[column]\<close> is read inside the bank: the bank has \<open>columns\<close>
  entries from \<open>resizeCanvas\<close> on, and the theorems about \<open>draw\<close> assume so.
\<close>

definition draw_column ::
  "matrix_state \<Rightarrow> nat \<Rightarrow> nat list \<times> paint list \<times> rng \<Rightarrow> nat list \<times> paint list \<times> rng" where
  "draw_column st column s =
     (case s of (dr, out, r) \<Rightarrow>
        let row = dr ! column;
            x = column * fontSize;
            y = row * fontSize;
            state = cell_state (freezeMap st) row column
        in if state = 2 then
             (dr, out @ [FillText ''#e8ffec'' (glyph (shd r)) x y], stl r)
           else
             (case advance (rows st) row (stl r) of
                (row', r') \<Rightarrow>
                  (dr[column := row'], out @ [FillText ''#63f28c'' (glyph (shd r)) x y], r')))"

definition draw_columns :: "matrix_state \<Rightarrow> rng \<Rightarrow> nat list \<times> paint list \<times> rng" where
  "draw_columns st r =
     fold (draw_column st) [0..<columns st]
       (drops st, [FillRect ''rgba(0, 10, 4, 0.18)'' 0 0 (canvas_width st) (canvas_height st)], r)"

text \<open>
  One frame: the result is the new state, the paint operations of the frame and the
  remaining draws. \<open>requestAnimationFrame(draw)\<close> makes the next frame the next call.
\<close>

definition draw :: "matrix_state \<Rightarrow> rng \<Rightarrow> js_error + (matrix_state \<times> paint list \<times> rng)" where
  "draw st r =
     (case draw_columns st r of
        (dr, out, r1) \<Rightarrow>
          (case diffuseFreeze (st\<lparr>drops := dr\<rparr>) r1 of
             Inl e \<Rightarrow> Inl e
           | Inr (st', r2) \<Rightarrow> Inr (st', out, r2)))"

subsection \<open>Iterating the cursor rule\<close>

text \<open>
  The cursor of one column after \<open>k\<close> advances: \<open>advance\<close> applied \<open>k\<close> times, each time on
  the draws the previous one left.
\<close>

fun advance_frames :: "nat \<Rightarrow> nat \<Rightarrow> nat \<Rightarrow> rng \<Rightarrow> nat \<times> rng" where
  "advance_frames rs 0 row r = (row, r)"
| "advance_frames rs (Suc k) row r =
     (case advance rs row r of (row', r') \<Rightarrow> advance_frames rs k row' r')"

subsection \<open>Notions used in the statements\<close>

text \<open>
  What the body of the inner loop of \<open>diffuseFreeze\<close> makes of one cell, given the draw
  it would read: the value the cell holds afterwards.
\<close>

definition freeze_step :: "nat \<Rightarrow> real \<Rightarrow> nat" where
  "freeze_step v u =
     (if v = 1 then (if u < freezeSpeed then 2 else 1)
      else if v = 2 then (if u < 1 / 1000 then 1 else 2)
      else v)"

text \<open>
  The grid has \<open>rows\<close> rows of \<open>columns\<close> cells, and the bank one cursor per column:
  what \<open>resizeCanvas\<close> sets up, and what \<open>drawTargetToMap\<close> and \<open>draw\<close> keep.
\<close>

definition grid_ok :: "matrix_state \<Rightarrow> bool" where
  "grid_ok st \<longleftrightarrow>
     length (freezeMap st) = rows st \<and>
     list_all (\<lambda>row. length row = columns st) (freezeMap st)"

definition state_ok :: "matrix_state \<Rightarrow> bool" where
  "state_ok st \<longleftrightarrow> grid_ok st \<and> length (drops st) = columns st"

text \<open>A cell went from \<open>old\<close> to \<open>new\<close> on one of the draws of the stream.\<close>

definition drawn :: "rng \<Rightarrow> nat \<Rightarrow> nat \<Rightarrow> bool" where
  "drawn r old new \<longleftrightarrow> (\<exists>u\<in>sset r. new = freeze_step old u)"

text \<open>
  The \<open>fillText\<close> call of one column of \<open>draw\<close>, and the cursor the column is left
  with: unchanged on a locked cell, advanced otherwise.
\<close>

definition column_paint :: "matrix_state \<Rightarrow> nat \<Rightarrow> nat \<Rightarrow> real \<Rightarrow> paint" where
  "column_paint st row column u =
     FillText (if cell_state (freezeMap st) row column = 2 then ''#e8ffec'' else ''#63f28c'')
       (glyph u) (column * fontSize) (row * fontSize)"

definition next_row :: "matrix_state \<Rightarrow> nat \<Rightarrow> nat \<Rightarrow> rng \<Rightarrow> nat" where
  "next_row st row column r =
     (if cell_state (freezeMap st) row column = 2 then row
      else fst (advance (rows st) row r))"

text \<open>
  The states of the program. It starts with \<open>resizeCanvas()\<close>; from then on a resize
  event runs \<open>resizeCanvas\<close> again, a submit or resize event runs \<open>drawTargetToMap\<close>,
  and each animation frame runs \<open>draw\<close>. \<open>Math.random\<close> returns numbers in \<open>[0, 1)\<close>.
\<close>

inductive reachable :: "matrix_state \<Rightarrow> bool" where
  resized: "\<forall>u\<in>sset r. 0 \<le> u \<and> u < 1 \<Longrightarrow> reachable (fst (resizeCanvas w h r))"
| retargeted: "reachable st \<Longrightarrow> drawTargetToMap localCtx txt st = Inr st' \<Longrightarrow> reachable st'"
| frame: "reachable st \<Longrightarrow> draw st r = Inr (st', out, r') \<Longrightarrow> reachable st'"

section \<open>The grid model\<close>

lemma ceil_cells:
  fixes w :: nat
  defines "c \<equiv> nat \<lceil>real w / real fontSize\<rceil>"
  shows "w \<le> fontSize * c \<and> fontSize * c < w + fontSize"
proof -
  let ?q = "real w / 14"
  have nn: "0 \<le> \<lceil>?q\<rceil>" by simp
  then have rc: "real c = of_int \<lceil>?q\<rceil>"
    by (simp add: c_def fontSize_def)
  have "?q \<le> real c" unfolding rc by (rule le_of_int_ceiling)
  then have "real w \<le> real (14 * c)" by simp
  then have a: "w \<le> 14 * c" by (simp only: of_nat_le_iff)
  have "real c < ?q + 1" unfolding rc by linarith
  then have "real (14 * c) < real (w + 14)" by simp
  then have b: "14 * c < w + 14" by (simp only: of_nat_less_iff)
  show ?thesis using a b by (simp add: fontSize_def)
qed

lemma resizeCanvas_fields:
  "canvas_width (fst (resizeCanvas w h r)) = nat (max \<lfloor>w\<rfloor> 240)"
  "canvas_height (fst (resizeCanvas w h r)) = nat (max \<lfloor>h\<rfloor> 280)"
  "columns (fst (resizeCanvas w h r)) = nat \<lceil>real (nat (max \<lfloor>w\<rfloor> 240)) / real fontSize\<rceil>"
  "rows (fst (resizeCanvas w h r)) = nat \<lceil>real (nat (max \<lfloor>h\<rfloor> 280)) / real fontSize\<rceil>"
  "drops (fst (resizeCanvas w h r)) =
     map (random_row (rows (fst (resizeCanvas w h r))))
       (stake (columns (fst (resizeCanvas w h r))) r)"
  "freezeMap (fst (resizeCanvas w h r)) =
     replicate (rows (fst (resizeCanvas w h r)))
       (replicate (columns (fst (resizeCanvas w h r))) 0)"
  "snd (resizeCanvas w h r) = sdrop (columns (fst (resizeCanvas w h r))) r"
  unfolding resizeCanvas_def Let_def by (simp_all only: fst_conv snd_conv matrix_state.simps)

text \<open>
  Claim C2, as the code has it. For every size of the surface, \<open>resizeCanvas\<close> sets the
  canvas to \<open>max(floor(width), 240)\<close> by \<open>max(floor(height), 280)\<close>, and takes
  \<open>columns\<close> and \<open>rows\<close> as the ceiling (not the floor) of the canvas width and height
  over the cell size 14: the least numbers of cells that cover the canvas. The cursor
  bank has \<open>columns\<close> entries and the grid is \<open>rows\<close> by \<open>columns\<close> idle cells.
\<close>

theorem resizeCanvas_grid:
  fixes w h :: real and r :: rng
  defines "st \<equiv> fst (resizeCanvas w h r)"
  shows "canvas_width st = nat (max \<lfloor>w\<rfloor> 240) \<and>
     canvas_height st = nat (max \<lfloor>h\<rfloor> 280) \<and>
     columns st = nat \<lceil>real (canvas_width st) / 14\<rceil> \<and>
     rows st = nat \<lceil>real (canvas_height st) / 14\<rceil> \<and>
     canvas_width st \<le> 14 * columns st \<and> 14 * columns st < canvas_width st + 14 \<and>
     canvas_height st \<le> 14 * rows st \<and> 14 * rows st < canvas_height st + 14 \<and>
     length (drops st) = columns st \<and>
     freezeMap st = replicate (rows st) (replicate (columns st) 0) \<and>
     snd (resizeCanvas w h r) = sdrop (columns st) r"
proof -
  have c: "columns st = nat \<lceil>real (canvas_width st) / real fontSize\<rceil>"
    unfolding st_def by (simp only: resizeCanvas_fields)
  have rw: "rows st = nat \<lceil>real (canvas_height st) / real fontSize\<rceil>"
    unfolding st_def by (simp only: resizeCanvas_fields)
  have f14: "real fontSize = 14" "fontSize = 14" by (simp_all add: fontSize_def)
  have cb: "canvas_width st \<le> 14 * columns st \<and> 14 * columns st < canvas_width st + 14"
    using ceil_cells[of "canvas_width st"] unfolding c f14 .
  have rb: "canvas_height st \<le> 14 * rows st \<and> 14 * rows st < canvas_height st + 14"
    using ceil_cells[of "canvas_height st"] unfolding rw f14 .
  have d: "length (drops st) = columns st"
    unfolding st_def by (subst resizeCanvas_fields(5)) simp
  show ?thesis
    using cb rb d c rw unfolding f14 of_nat_numeral unfolding st_def
    by (simp only: resizeCanvas_fields simp_thms)
qed

text \<open>
  The floor is not what the code computes: at the minimum width 240 the quotient 240 / 14
  has floor 17, and the code makes 18 columns.
\<close>

theorem resizeCanvas_floor_counterexample:
  "int (columns (fst (resizeCanvas 240 280 (sconst (1 / 2))))) \<noteq> \<lfloor>240 / real fontSize\<rfloor>"
  by (simp add: resizeCanvas_def Let_def fontSize_def)

text \<open>
  The grid of the 336 by 280 surface.
\<close>

theorem resizeCanvas_grid_witness:
  "case resizeCanvas 336 280 (sconst (1 / 2)) of (st, r') \<Rightarrow>
     canvas_width st = 336 \<and> canvas_height st = 280 \<and> columns st = 24 \<and> rows st = 20 \<and>
     length (drops st) = 24"
  using resizeCanvas_grid [of 336 280 "sconst (1 / 2)"]
  by (simp add: split_beta)

section \<open>The cursor rule\<close>


lemma draws_stl:
  assumes "\<forall>u\<in>sset r. P u"
  shows "\<forall>u\<in>sset (stl r). P u"
proof
  fix u assume "u \<in> sset (stl r)"
  then have "u \<in> sset r" by (rule stl_sset)
  then show "P u" using assms by (rule_tac bspec)
qed


lemma advance_frames_snd:
  assumes "\<forall>u\<in>sset r. u \<le> 975 / 1000"
  shows "\<forall>u\<in>sset (snd (advance_frames rs k row r)). u \<le> 975 / 1000"
  using assms
proof (induction k arbitrary: row r)
  case 0
  then show ?case by simp
next
  case (Suc k)
  obtain row' r' where a: "advance rs row r = (row', r')" by (cases "advance rs row r")
  have "r' = r \<or> r' = stl r" using a by (auto simp: advance_def split: if_splits)
  then have "\<forall>u\<in>sset r'. u \<le> 975 / 1000"
    using Suc.prems draws_stl[of r] by (elim disjE) simp_all
  then show ?case using Suc.IH a by simp
qed




section \<open>The rasterizer\<close>

text \<open>
  Claim C9. Without a 2D context for the off-screen canvas, \<open>drawTargetToMap\<close> returns
  the state it was given: the grid, the cursors and the sizes are all unchanged.
\<close>

theorem drawTargetToMap_no_context:
  "drawTargetToMap None text st = Inr st"
  by (simp add: drawTargetToMap_def)





lemma lines_of_length: "length (lines_of text) \<le> 6"
  by (simp add: lines_of_def lineList_def)



subsection \<open>The target grid\<close>

lemma fill_row:
  assumes "y < length t" and "n \<le> length (t ! y)"
  shows "fold (\<lambda>x g. set_cell g y x (f x)) [0..<n] t = t[y := map f [0..<n] @ drop n (t ! y)]"
  using assms(2)
proof (induction n)
  case 0
  then show ?case by simp
next
  case (Suc n)
  let ?row = "t ! y"
  let ?a = "map f [0..<n]"
  have n: "n < length ?row" using Suc.prems by simp
  have ih: "fold (\<lambda>x g. set_cell g y x (f x)) [0..<n] t = t[y := ?a @ drop n ?row]"
    using Suc.IH n by simp
  have d: "drop n ?row = ?row ! n # drop (Suc n) ?row"
    using n by (simp add: Cons_nth_drop_Suc)
  have "(?a @ drop n ?row)[n := f n] = ?a @ (drop n ?row)[0 := f n]"
    by (simp add: list_update_append)
  also have "\<dots> = ?a @ f n # drop (Suc n) ?row"
    by (subst d) simp
  finally have u: "(?a @ drop n ?row)[n := f n] = map f [0..<Suc n] @ drop (Suc n) ?row"
    by simp
  have "fold (\<lambda>x g. set_cell g y x (f x)) [0..<Suc n] t
          = set_cell (t[y := ?a @ drop n ?row]) y n (f n)"
    by (simp add: ih)
  also have "\<dots> = t[y := (?a @ drop n ?row)[n := f n]]"
    using assms(1) by (simp add: set_cell_def)
  finally show ?case by (simp only: u)
qed

lemma fill_rows:
  assumes "m \<le> length t" and "\<forall>y<m. cs \<le> length (t ! y)"
  shows "fold (\<lambda>y. fold (\<lambda>x g. set_cell g y x (f y x)) [0..<cs]) [0..<m] t
           = map (\<lambda>y. map (f y) [0..<cs] @ drop cs (t ! y)) [0..<m] @ drop m t"
  using assms
proof (induction m)
  case 0
  then show ?case by simp
next
  case (Suc m)
  let ?done = "map (\<lambda>y. map (f y) [0..<cs] @ drop cs (t ! y)) [0..<m]"
  let ?g = "?done @ drop m t"
  have m: "m < length t" using Suc.prems(1) by simp
  have ih: "fold (\<lambda>y. fold (\<lambda>x g. set_cell g y x (f y x)) [0..<cs]) [0..<m] t = ?g"
    using Suc.IH Suc.prems by simp
  have d: "drop m t = t ! m # drop (Suc m) t"
    using m by (simp add: Cons_nth_drop_Suc)
  have gm: "?g ! m = t ! m"
    by (subst d) (simp add: nth_append)
  have lg: "m < length ?g" using m by simp
  have cs: "cs \<le> length (?g ! m)" using Suc.prems(2) gm by simp
  have "fold (\<lambda>x g. set_cell g m x (f m x)) [0..<cs] ?g
          = ?g[m := map (f m) [0..<cs] @ drop cs (?g ! m)]"
    using lg cs by (rule fill_row)
  also have "\<dots> = ?done @ (drop m t)[0 := map (f m) [0..<cs] @ drop cs (t ! m)]"
    by (simp add: list_update_append gm)
  also have "\<dots> = ?done @ (map (f m) [0..<cs] @ drop cs (t ! m)) # drop (Suc m) t"
    by (subst d) simp
  finally have step: "fold (\<lambda>x g. set_cell g m x (f m x)) [0..<cs] ?g
      = map (\<lambda>y. map (f y) [0..<cs] @ drop cs (t ! y)) [0..<Suc m] @ drop (Suc m) t"
    by simp
  have "fold (\<lambda>y. fold (\<lambda>x g. set_cell g y x (f y x)) [0..<cs]) [0..<Suc m] t
          = fold (\<lambda>x g. set_cell g m x (f m x)) [0..<cs] ?g"
    by (simp add: ih)
  then show ?case by (simp only: step)
qed

lemma target_grid_map:
  "target_grid d cs rs = map (\<lambda>y. map (\<lambda>x. occupied d cs y x) [0..<cs]) [0..<rs]"
proof -
  let ?t = "replicate rs (replicate cs (0::nat))"
  have "fold (\<lambda>y. fold (\<lambda>x g. set_cell g y x (occupied d cs y x)) [0..<cs]) [0..<rs] ?t
          = map (\<lambda>y. map (occupied d cs y) [0..<cs] @ drop cs (?t ! y)) [0..<rs] @ drop rs ?t"
    by (rule fill_rows) simp_all
  also have "\<dots> = map (\<lambda>y. map (occupied d cs y) [0..<cs]) [0..<rs]"
    by simp
  finally show ?thesis by (simp add: target_grid_def)
qed

lemma occupied_01: "occupied d cs y x = 0 \<or> occupied d cs y x = 1"
  by (simp add: occupied_def split: option.split)

lemma target_grid_cells:
  "length (target_grid d cs rs) = rs"
  "y < rs \<Longrightarrow> length (target_grid d cs rs ! y) = cs"
  "y < rs \<Longrightarrow> x < cs \<Longrightarrow> target_grid d cs rs ! y ! x = occupied d cs y x"
  by (simp_all add: target_grid_map)


text \<open>
  Claim C4. For every text, every off-screen canvas and every grid of at least one column
  and one row, a re-target succeeds; afterwards the live grid is the target grid, cell for
  cell: \<open>rows\<close> rows of \<open>columns\<close> cells, each 1 where the pixel's alpha exceeds 30 and 0
  elsewhere. No cell is 2, whatever the grid held before. The sizes and the cursors are
  left as they were.
\<close>

theorem retarget_resets_grid:
  fixes st :: matrix_state and ctx :: canvas2d and "text" :: js_string
  assumes "0 < columns st" and "0 < rows st"
  defines "d \<equiv> ctx (raster_request_of (columns st) (rows st) (lines_of text))"
  shows "\<exists>st'. drawTargetToMap (Some ctx) text st = Inr st' \<and>
           freezeMap st' = target_grid d (columns st) (rows st) \<and>
           length (freezeMap st') = rows st \<and>
           (\<forall>y<rows st. length (freezeMap st' ! y) = columns st \<and>
              (\<forall>x<columns st.
                 freezeMap st' ! y ! x = occupied d (columns st) y x \<and>
                 (freezeMap st' ! y ! x = 0 \<or> freezeMap st' ! y ! x = 1) \<and>
                 freezeMap st' ! y ! x \<noteq> 2)) \<and>
           columns st' = columns st \<and> rows st' = rows st \<and> drops st' = drops st"
proof -
  let ?st' = "st\<lparr>freezeMap := target_grid d (columns st) (rows st)\<rparr>"
  have r: "drawTargetToMap (Some ctx) text st = Inr ?st'"
    using assms(1,2) by (simp add: drawTargetToMap_def d_def)
  have cells: "\<forall>y<rows st. length (freezeMap ?st' ! y) = columns st \<and>
              (\<forall>x<columns st.
                 freezeMap ?st' ! y ! x = occupied d (columns st) y x \<and>
                 (freezeMap ?st' ! y ! x = 0 \<or> freezeMap ?st' ! y ! x = 1) \<and>
                 freezeMap ?st' ! y ! x \<noteq> 2)"
  proof (intro allI impI conjI)
    fix y assume y: "y < rows st"
    show "length (freezeMap ?st' ! y) = columns st"
      using y by (simp add: target_grid_cells)
    fix x assume x: "x < columns st"
    show o: "freezeMap ?st' ! y ! x = occupied d (columns st) y x"
      using x y by (simp add: target_grid_cells)
    show "freezeMap ?st' ! y ! x = 0 \<or> freezeMap ?st' ! y ! x = 1"
      unfolding o by (rule occupied_01)
    show "freezeMap ?st' ! y ! x \<noteq> 2"
      unfolding o using occupied_01[of d "columns st" y x] by auto
  qed
  have rest: "freezeMap ?st' = target_grid d (columns st) (rows st)"
    "length (freezeMap ?st') = rows st"
    "columns ?st' = columns st" "rows ?st' = rows st" "drops ?st' = drops st"
    by (simp_all add: target_grid_cells)
  show ?thesis
    apply (rule exI[of _ ?st'])
    apply (intro conjI)
          apply (rule r)
         apply (rule rest(1))
        apply (rule rest(2))
       apply (rule cells)
      apply (rule rest(3))
     apply (rule rest(4))
    apply (rule rest(5))
    done
qed

text \<open>
  A grid of two by two with locked cells, re-targeted on alphas 255, 0, 31 and 30.
\<close>

theorem retarget_resets_grid_witness:
  "drawTargetToMap (Some (\<lambda>rq. [0, 0, 0, 255,  0, 0, 0, 0,  0, 0, 0, 31,  0, 0, 0, 30]))
     (js_str ''HI'')
     \<lparr>canvas_width = 28, canvas_height = 28, columns = 2, rows = 2, drops = [0, 1],
      freezeMap = [[2, 1], [0, 2]]\<rparr>
   = Inr \<lparr>canvas_width = 28, canvas_height = 28, columns = 2, rows = 2, drops = [0, 1],
      freezeMap = [[1, 0], [1, 0]]\<rparr>"
proof -
  let ?st = "\<lparr>canvas_width = 28, canvas_height = 28, columns = 2, rows = 2, drops = [0, 1],
      freezeMap = [[2, 1], [0, 2]]\<rparr>"
  have c: "0 < columns ?st" and r: "0 < rows ?st" by simp_all
  from retarget_resets_grid [OF c r,
      of "\<lambda>rq. [0, 0, 0, 255,  0, 0, 0, 0,  0, 0, 0, 31,  0, 0, 0, 30]" "js_str ''HI''"]
  show ?thesis
    by (simp add: drawTargetToMap_def target_grid_map occupied_def js_index_def upt_rec)
qed

subsection \<open>The lines of the text\<close>

lemma trimEnd_Nil_iff: "trimEnd s = [] \<longleftrightarrow> (\<forall>c\<in>set s. is_ws c)"
  by (simp add: trimEnd_def dropWhile_eq_Nil_conv)

lemma trimEnd_Cons:
  "trimEnd (c # cs) = (if trimEnd cs = [] \<and> is_ws c then [] else c # trimEnd cs)"
proof (cases "\<forall>x\<in>set cs. is_ws x")
  case True
  then have d: "dropWhile is_ws (rev cs @ [c]) = dropWhile is_ws [c]"
    by (intro dropWhile_append2) simp
  have e: "trimEnd cs = []" using True by (simp add: trimEnd_Nil_iff)
  have "trimEnd (c # cs) = rev (dropWhile is_ws [c])"
    by (simp add: trimEnd_def d)
  then show ?thesis by (simp add: e)
next
  case False
  then obtain x where "x \<in> set (rev cs)" "\<not> is_ws x" by auto
  then have d: "dropWhile is_ws (rev cs @ [c]) = dropWhile is_ws (rev cs) @ [c]"
    by (rule_tac dropWhile_append1)
  have e: "trimEnd cs \<noteq> []" using False by (simp add: trimEnd_Nil_iff)
  have "trimEnd (c # cs) = c # rev (dropWhile is_ws (rev cs))"
    by (simp add: trimEnd_def d)
  then show ?thesis using e by (simp add: trimEnd_def)
qed

lemma trimEnd_Nil [simp]: "trimEnd [] = []"
  by (simp add: trimEnd_def)

lemma split_nl_not_Nil: "split_nl t \<noteq> []"
  by (cases t) simp_all

lemma split_nl_hd_tl: "split_nl t = hd (split_nl t) # tl (split_nl t)"
  using split_nl_not_Nil by simp

lemma kept_lines:
  "filter (\<lambda>l. l \<noteq> []) (map trimEnd (split_nl t)) =
     (if trimEnd (hd (split_nl t)) \<noteq> [] then [trimEnd (hd (split_nl t))] else [])
     @ filter (\<lambda>l. l \<noteq> []) (map trimEnd (tl (split_nl t)))"
  using split_nl_not_Nil[of t] by (cases "split_nl t") simp_all

lemma is_ws_nl: "is_ws 0x0A"
  by (simp add: is_ws_def)

lemma blank_text_blank_lines:
  "(\<forall>c\<in>set t. is_ws c) \<Longrightarrow> \<forall>l\<in>set (split_nl t). trimEnd l = []"
proof (induction t)
  case Nil
  then show ?case by simp
next
  case (Cons c cs)
  let ?S = "split_nl cs"
  have ih: "\<forall>l\<in>set ?S. trimEnd l = []" using Cons by simp
  have S: "?S = hd ?S # tl ?S" by (rule split_nl_hd_tl)
  have h: "trimEnd (hd ?S) = []" using ih split_nl_not_Nil[of cs] by simp
  have t: "\<forall>l\<in>set (tl ?S). trimEnd l = []"
    using ih split_nl_not_Nil[of cs] by (simp add: list.set_sel(2))
  have c: "is_ws c" using Cons.prems by simp
  show ?case
  proof (cases "c = 0x0A")
    case True
    then show ?thesis using ih by simp
  next
    case False
    have "trimEnd (c # hd ?S) = []" using h c by (simp add: trimEnd_Cons)
    then show ?thesis using False t by simp
  qed
qed

lemma split_nl_trimEnd:
  "trimEnd (hd (split_nl (trimEnd t))) = trimEnd (hd (split_nl t)) \<and>
   filter (\<lambda>l. l \<noteq> []) (map trimEnd (tl (split_nl (trimEnd t))))
     = filter (\<lambda>l. l \<noteq> []) (map trimEnd (tl (split_nl t)))"
proof (induction t)
  case Nil
  then show ?case by simp
next
  case (Cons c cs)
  let ?S = "split_nl cs" and ?S' = "split_nl (trimEnd cs)"
  have S: "?S = hd ?S # tl ?S" and S': "?S' = hd ?S' # tl ?S'"
    by (rule split_nl_hd_tl)+
  show ?case
  proof (cases "trimEnd cs = [] \<and> is_ws c")
    case True
    then have e: "trimEnd (c # cs) = []" by (simp add: trimEnd_Cons)
    have "\<forall>x\<in>set (c # cs). is_ws x" using True by (simp add: trimEnd_Nil_iff)
    then have b: "\<forall>l\<in>set (split_nl (c # cs)). trimEnd l = []"
      by (rule blank_text_blank_lines)
    have Sc: "split_nl (c # cs) = hd (split_nl (c # cs)) # tl (split_nl (c # cs))"
      by (rule split_nl_hd_tl)
    have ne: "split_nl (c # cs) \<noteq> []" by (rule split_nl_not_Nil)
    have h: "trimEnd (hd (split_nl (c # cs))) = []"
      using b hd_in_set[OF ne] by (rule_tac bspec)
    have t: "\<forall>l\<in>set (tl (split_nl (c # cs))). trimEnd l = []"
      using b list.set_sel(2)[OF ne] by simp
    have "filter (\<lambda>l. l \<noteq> []) (map trimEnd (tl (split_nl (c # cs)))) = []"
      using t by (simp add: filter_empty_conv)
    then show ?thesis using h by (simp add: e)
  next
    case False
    then have e: "trimEnd (c # cs) = c # trimEnd cs" by (simp add: trimEnd_Cons)
    show ?thesis
    proof (cases "c = 0x0A")
      case True
      have a: "split_nl (trimEnd (c # cs)) = [] # ?S'"
        unfolding e using True by simp
      have b: "split_nl (c # cs) = [] # ?S"
        using True by simp
      have "filter (\<lambda>l. l \<noteq> []) (map trimEnd ?S') = filter (\<lambda>l. l \<noteq> []) (map trimEnd ?S)"
        by (simp add: kept_lines[of cs] kept_lines[of "trimEnd cs"] Cons.IH)
      then show ?thesis unfolding a b by simp
    next
      case nl: False
      have a: "split_nl (trimEnd (c # cs)) = (c # hd ?S') # tl ?S'"
        unfolding e using nl by simp
      have b: "split_nl (c # cs) = (c # hd ?S) # tl ?S"
        using nl by simp
      have "trimEnd (c # hd ?S') = trimEnd (c # hd ?S)"
        using Cons.IH by (simp add: trimEnd_Cons)
      then show ?thesis unfolding a b using Cons.IH by simp
    qed
  qed
qed

lemma spec_normalize_trimEnd: "spec_normalize (trimEnd t) = spec_normalize t"
proof -
  have "filter (\<lambda>l. l \<noteq> []) (map trimEnd (split_nl (trimEnd t)))
          = filter (\<lambda>l. l \<noteq> []) (map trimEnd (split_nl t))"
    by (simp add: kept_lines[of t] kept_lines[of "trimEnd t"] split_nl_trimEnd)
  then show ?thesis by (simp add: spec_normalize_def)
qed

lemma lineList_spec: "lineList text = spec_normalize (trim text)"
  by (simp add: lineList_def spec_normalize_def)

lemma blank_lines_blank_text:
  "\<forall>l\<in>set (split_nl t). trimEnd l = [] \<Longrightarrow> \<forall>c\<in>set t. is_ws c"
proof (induction t)
  case Nil
  then show ?case by simp
next
  case (Cons c cs)
  let ?S = "split_nl cs"
  have S: "?S = hd ?S # tl ?S" by (rule split_nl_hd_tl)
  show ?case
  proof (cases "c = 0x0A")
    case True
    then show ?thesis using Cons is_ws_nl by simp
  next
    case False
    then have h: "trimEnd (c # hd ?S) = []" and t: "\<forall>l\<in>set (tl ?S). trimEnd l = []"
      using Cons.prems by simp_all
    from h have c: "is_ws c" and h': "trimEnd (hd ?S) = []"
      by (simp_all add: trimEnd_Cons split: if_splits)
    have "set ?S = insert (hd ?S) (set (tl ?S))"
      using split_nl_not_Nil[of cs] by (cases ?S) simp_all
    then have "\<forall>l\<in>set ?S. trimEnd l = []"
      using h' t by simp
    then show ?thesis using Cons.IH c by simp
  qed
qed

lemma spec_normalize_Nil_iff: "spec_normalize t = [] \<longleftrightarrow> (\<forall>c\<in>set t. is_ws c)"
proof -
  have "spec_normalize t = [] \<longleftrightarrow> (\<forall>l\<in>set (split_nl t). trimEnd l = [])"
    by (simp add: spec_normalize_def filter_empty_conv)
  moreover have "(\<forall>l\<in>set (split_nl t). trimEnd l = []) \<longleftrightarrow> (\<forall>c\<in>set t. is_ws c)"
    using blank_lines_blank_text[of t] blank_text_blank_lines[of t] by (rule_tac iffI)
  ultimately show ?thesis by (rule trans)
qed

lemma trimStart_blank_iff: "(\<forall>c\<in>set (trimStart t). is_ws c) \<longleftrightarrow> (\<forall>c\<in>set t. is_ws c)"
  unfolding trimStart_def by (induction t) simp_all

text \<open>
  Claim C5, as the code has it. The rasterizer first trims the whole text, at both ends,
  and then does what the claim says: split on line feeds, trim each line at its end,
  discard the empty lines, keep the first 6. Trimming the end of the text changes
  nothing; trimming its start removes the leading white space of the first line kept. No
  line is left exactly when nothing but white space was given, which is also when the
  procedure of the claim leaves none, and then the default phrase is rendered; the empty
  text is such a text. There is always at least one line and never more than 6.
\<close>

theorem lines_of_normalisation:
  "lineList text = spec_normalize (trim text) \<and>
   lineList text = spec_normalize (trimStart text) \<and>
   (lineList text = [] \<longleftrightarrow> spec_normalize text = []) \<and>
   (lineList text = [] \<longleftrightarrow> (\<forall>c\<in>set text. is_ws c)) \<and>
   lines_of text = (if spec_normalize text = [] then [default_phrase]
                    else spec_normalize (trimStart text)) \<and>
   lines_of [] = [default_phrase] \<and>
   lines_of text \<noteq> [] \<and> length (lines_of text) \<le> 6"
proof -
  have a: "lineList text = spec_normalize (trimStart text)"
    by (simp add: lineList_spec trim_def spec_normalize_trimEnd)
  have b: "lineList text = [] \<longleftrightarrow> (\<forall>c\<in>set text. is_ws c)"
    by (simp add: a spec_normalize_Nil_iff trimStart_blank_iff)
  have c: "lineList text = [] \<longleftrightarrow> spec_normalize text = []"
    by (simp add: b spec_normalize_Nil_iff)
  have d: "lines_of text = (if spec_normalize text = [] then [default_phrase]
                    else spec_normalize (trimStart text))"
    using a c by (simp add: lines_of_def)
  have e: "lines_of [] = [default_phrase]"
    by (simp add: lines_of_def lineList_def trim_def trimStart_def)
  have f: "lines_of text \<noteq> []" by (simp add: lines_of_def)
  have g: "length (lines_of text) \<le> 6" by (simp add: lines_of_def lineList_def)
  have a0: "lineList text = spec_normalize (trim text)" by (rule lineList_spec)
  show ?thesis
    apply (intro conjI)
           apply (rule a0)
          apply (rule a)
         apply (rule c)
        apply (rule b)
       apply (rule d)
      apply (rule e)
     apply (rule f)
    apply (rule g)
    done
qed

text \<open>
  The line \<open>"  HI"\<close> keeps its two leading spaces under the procedure of the
  specification; the code renders \<open>"HI"\<close>.
\<close>

theorem leading_space_counterexample:
  "lineList (js_str ''  HI'') \<noteq> spec_normalize (js_str ''  HI'')"
  by (simp add: lineList_def spec_normalize_def trim_def trimStart_def trimEnd_def
      js_str_def is_ws_def)

text \<open>
  A padded line and a blank text.
\<close>

theorem lines_of_normalisation_witness:
  "lines_of (js_str ''  HI  '') = [js_str ''HI''] \<and>
   lines_of (js_str ''   '') = [js_str ''TOLL BOT'']"
  using lines_of_normalisation [of "js_str ''  HI  ''"]
    lines_of_normalisation [of "js_str ''   ''"]
  by (simp add: spec_normalize_def trim_def trimStart_def trimEnd_def default_phrase_def
      js_str_def is_ws_def)

section \<open>The freeze diffusion engine\<close>

lemma set_cell_same: "y < length fm \<Longrightarrow> set_cell fm y x (fm ! y ! x) = fm"
  by (simp add: set_cell_def)

lemma diffuse_cell_in_grid:
  assumes "y < length fm" and "x < length (fm ! y)"
  shows "\<exists>r'. diffuse_cell y x (fm, r) = Inr (set_cell fm y x (freeze_step (fm ! y ! x) (shd r)), r')
           \<and> (r' = r \<or> r' = stl r)"
proof -
  let ?v = "fm ! y ! x"
  have i: "js_index fm y = Some (fm ! y)" "js_index (fm ! y) x = Some ?v"
    using assms by (simp_all add: js_index_def)
  consider "?v = 1" "shd r < freezeSpeed" | "?v = 1" "\<not> shd r < freezeSpeed"
    | "?v = 2" "shd r < 1 / 1000" | "?v = 2" "\<not> shd r < 1 / 1000" | "?v \<noteq> 1" "?v \<noteq> 2"
    by linarith
  then show ?thesis
  proof cases
    case 1
    then show ?thesis by (simp add: diffuse_cell_def i freeze_step_def)
  next
    case 2
    then have "freeze_step ?v (shd r) = ?v" by (simp add: freeze_step_def)
    then have B: "set_cell fm y x (freeze_step ?v (shd r)) = fm"
      by (simp only: set_cell_same[OF assms(1)])
    have A: "diffuse_cell y x (fm, r) = Inr (fm, stl r)"
      using 2 by (simp add: diffuse_cell_def i)
    show ?thesis unfolding A B by simp
  next
    case 3
    then show ?thesis by (simp add: diffuse_cell_def i freeze_step_def)
  next
    case 4
    then have "freeze_step ?v (shd r) = ?v" by (simp add: freeze_step_def)
    then have B: "set_cell fm y x (freeze_step ?v (shd r)) = fm"
      by (simp only: set_cell_same[OF assms(1)])
    have A: "diffuse_cell y x (fm, r) = Inr (fm, stl r)"
      using 4 by (simp add: diffuse_cell_def i)
    show ?thesis unfolding A B by simp
  next
    case 5
    then have "freeze_step ?v (shd r) = ?v" by (simp add: freeze_step_def)
    then have B: "set_cell fm y x (freeze_step ?v (shd r)) = fm"
      by (simp only: set_cell_same[OF assms(1)])
    have A: "diffuse_cell y x (fm, r) = Inr (fm, r)"
      using 5 by (simp add: diffuse_cell_def i)
    show ?thesis unfolding A B by simp
  qed
qed

lemma drawn_shd: "drawn r v (freeze_step v (shd r))"
  unfolding drawn_def by (rule bexI[OF refl shd_sset])

lemma drawn_stl: "drawn (stl r) a b \<Longrightarrow> drawn r a b"
  unfolding drawn_def using stl_sset by (elim bexE) (rule bexI)

lemma drawn_later: "r' = r \<or> r' = stl r \<Longrightarrow> drawn r' a b \<Longrightarrow> drawn r a b"
  using drawn_stl by (elim disjE) simp_all

text \<open>One row: the cells listed in xs are stepped, the others are untouched.\<close>

lemma diffuse_row:
  assumes "y < length fm" and "distinct xs" and "\<forall>x\<in>set xs. x < length (fm ! y)"
  shows "\<exists>row' r'. for_loop (diffuse_cell y) xs (fm, r) = Inr (fm[y := row'], r') \<and>
           length row' = length (fm ! y) \<and>
           (\<forall>x<length (fm ! y).
              (x \<in> set xs \<longrightarrow> drawn r (fm ! y ! x) (row' ! x)) \<and>
              (x \<notin> set xs \<longrightarrow> row' ! x = fm ! y ! x)) \<and>
           (\<forall>a b. drawn r' a b \<longrightarrow> drawn r a b)"
  using assms
proof (induction xs arbitrary: fm r)
  case Nil
  have "for_loop (diffuse_cell y) [] (fm, r) = Inr (fm[y := fm ! y], r)" by simp
  then show ?case by (intro exI[of _ "fm ! y"] exI[of _ r]) simp
next
  case (Cons x0 xs)
  let ?v = "freeze_step (fm ! y ! x0) (shd r)"
  let ?fm1 = "set_cell fm y x0 ?v"
  have x0: "x0 < length (fm ! y)" using Cons.prems(3) by simp
  obtain r1 where c: "diffuse_cell y x0 (fm, r) = Inr (?fm1, r1)" and r1: "r1 = r \<or> r1 = stl r"
    using diffuse_cell_in_grid[OF Cons.prems(1) x0] by blast
  have row1: "?fm1 ! y = (fm ! y)[x0 := ?v]" and len1: "length ?fm1 = length fm"
    using Cons.prems(1) by (simp_all add: set_cell_def)
  have p1: "y < length ?fm1" using Cons.prems(1) len1 by simp
  have p2: "distinct xs" and nin: "x0 \<notin> set xs" using Cons.prems(2) by simp_all
  have p3: "\<forall>x\<in>set xs. x < length (?fm1 ! y)"
    using Cons.prems(3) by (simp add: row1)
  obtain row' r' where
    l: "for_loop (diffuse_cell y) xs (?fm1, r1) = Inr (?fm1[y := row'], r')" and
    len: "length row' = length (?fm1 ! y)" and
    cells: "\<forall>x<length (?fm1 ! y).
              (x \<in> set xs \<longrightarrow> drawn r1 (?fm1 ! y ! x) (row' ! x)) \<and>
              (x \<notin> set xs \<longrightarrow> row' ! x = ?fm1 ! y ! x)" and
    later: "\<forall>a b. drawn r' a b \<longrightarrow> drawn r1 a b"
    using Cons.IH[OF p1 p2 p3, of r1] by blast
  have ov: "?fm1[y := row'] = fm[y := row']" by (simp add: set_cell_def)
  have L: "for_loop (diffuse_cell y) (x0 # xs) (fm, r) = Inr (fm[y := row'], r')"
    by (simp add: c l ov)
  have LEN: "length row' = length (fm ! y)" using len by (simp add: row1)
  have CELLS: "\<forall>x<length (fm ! y).
              (x \<in> set (x0 # xs) \<longrightarrow> drawn r (fm ! y ! x) (row' ! x)) \<and>
              (x \<notin> set (x0 # xs) \<longrightarrow> row' ! x = fm ! y ! x)"
  proof (intro allI impI conjI)
    fix x assume x: "x < length (fm ! y)" and m: "x \<in> set (x0 # xs)"
    have x1: "x < length (?fm1 ! y)" using x by (simp add: row1)
    show "drawn r (fm ! y ! x) (row' ! x)"
    proof (cases "x = x0")
      case True
      have "row' ! x0 = ?fm1 ! y ! x0" using cells x1 nin True by blast
      then have "row' ! x = ?v" using True x0 by (simp add: row1)
      then show ?thesis using True drawn_shd by simp
    next
      case False
      then have "x \<in> set xs" using m by simp
      then have "drawn r1 (?fm1 ! y ! x) (row' ! x)" using cells x1 by blast
      then have "drawn r1 (fm ! y ! x) (row' ! x)" using False by (simp add: row1)
      then show ?thesis using r1 by (rule drawn_later[rotated])
    qed
  next
    fix x assume x: "x < length (fm ! y)" and m: "x \<notin> set (x0 # xs)"
    have x1: "x < length (?fm1 ! y)" using x by (simp add: row1)
    have "x \<notin> set xs" "x \<noteq> x0" using m by simp_all
    then have "row' ! x = ?fm1 ! y ! x" using cells x1 by blast
    then show "row' ! x = fm ! y ! x" using \<open>x \<noteq> x0\<close> by (simp add: row1)
  qed
  have LATER: "\<forall>a b. drawn r' a b \<longrightarrow> drawn r a b"
    using later r1 drawn_later by blast
  show ?case
    apply (rule exI[of _ row'], rule exI[of _ r'])
    apply (intro conjI)
       apply (rule L)
      apply (rule LEN)
     apply (rule CELLS)
    apply (rule LATER)
    done
qed


text \<open>The rows listed in ys: in each, the cells listed in xs are stepped.\<close>

lemma diffuse_rows:
  assumes "distinct ys" and "\<forall>y\<in>set ys. y < length fm" and "distinct xs"
    and "\<forall>y\<in>set ys. \<forall>x\<in>set xs. x < length (fm ! y)"
  shows "\<exists>fm' r'. for_loop (\<lambda>y. for_loop (diffuse_cell y) xs) ys (fm, r) = Inr (fm', r') \<and>
           length fm' = length fm \<and>
           (\<forall>y<length fm. length (fm' ! y) = length (fm ! y) \<and>
              (\<forall>x<length (fm ! y).
                 (y \<in> set ys \<and> x \<in> set xs \<longrightarrow> drawn r (fm ! y ! x) (fm' ! y ! x)) \<and>
                 (\<not> (y \<in> set ys \<and> x \<in> set xs) \<longrightarrow> fm' ! y ! x = fm ! y ! x))) \<and>
           (\<forall>a b. drawn r' a b \<longrightarrow> drawn r a b)"
  using assms
proof (induction ys arbitrary: fm r)
  case Nil
  show ?case by (intro exI[of _ fm] exI[of _ r]) simp
next
  case (Cons y0 ys)
  have y0: "y0 < length fm" and nin: "y0 \<notin> set ys" and dys: "distinct ys"
    using Cons.prems(1,2) by simp_all
  have xs0: "\<forall>x\<in>set xs. x < length (fm ! y0)" using Cons.prems(4) by simp
  obtain row' r1 where
    l0: "for_loop (diffuse_cell y0) xs (fm, r) = Inr (fm[y0 := row'], r1)" and
    len0: "length row' = length (fm ! y0)" and
    cells0: "\<forall>x<length (fm ! y0).
              (x \<in> set xs \<longrightarrow> drawn r (fm ! y0 ! x) (row' ! x)) \<and>
              (x \<notin> set xs \<longrightarrow> row' ! x = fm ! y0 ! x)" and
    later0: "\<forall>a b. drawn r1 a b \<longrightarrow> drawn r a b"
    using diffuse_row[OF y0 Cons.prems(3) xs0, of r] by blast
  let ?fm1 = "fm[y0 := row']"
  have fm1_y0: "?fm1 ! y0 = row'" using y0 by simp
  have fm1_other: "\<And>y. y \<noteq> y0 \<Longrightarrow> ?fm1 ! y = fm ! y" by simp
  have q2: "\<forall>y\<in>set ys. y < length ?fm1" using Cons.prems(2) by simp
  have q4: "\<forall>y\<in>set ys. \<forall>x\<in>set xs. x < length (?fm1 ! y)"
  proof
    fix y assume y: "y \<in> set ys"
    then have "y \<noteq> y0" using nin by blast
    then have "?fm1 ! y = fm ! y" by (rule fm1_other)
    then show "\<forall>x\<in>set xs. x < length (?fm1 ! y)" using Cons.prems(4) y by simp
  qed
  obtain fm' r' where
    l: "for_loop (\<lambda>y. for_loop (diffuse_cell y) xs) ys (?fm1, r1) = Inr (fm', r')" and
    len: "length fm' = length ?fm1" and
    cells: "\<forall>y<length ?fm1. length (fm' ! y) = length (?fm1 ! y) \<and>
              (\<forall>x<length (?fm1 ! y).
                 (y \<in> set ys \<and> x \<in> set xs \<longrightarrow> drawn r1 (?fm1 ! y ! x) (fm' ! y ! x)) \<and>
                 (\<not> (y \<in> set ys \<and> x \<in> set xs) \<longrightarrow> fm' ! y ! x = ?fm1 ! y ! x))" and
    later: "\<forall>a b. drawn r' a b \<longrightarrow> drawn r1 a b"
    using Cons.IH[OF dys q2 Cons.prems(3) q4, of r1] by blast
  have L: "for_loop (\<lambda>y. for_loop (diffuse_cell y) xs) (y0 # ys) (fm, r) = Inr (fm', r')"
    by (simp add: l0 l)
  have LEN: "length fm' = length fm" using len by simp
  have CELLS: "\<forall>y<length fm. length (fm' ! y) = length (fm ! y) \<and>
              (\<forall>x<length (fm ! y).
                 (y \<in> set (y0 # ys) \<and> x \<in> set xs \<longrightarrow> drawn r (fm ! y ! x) (fm' ! y ! x)) \<and>
                 (\<not> (y \<in> set (y0 # ys) \<and> x \<in> set xs) \<longrightarrow> fm' ! y ! x = fm ! y ! x))"
  proof (intro allI impI)
    fix y assume y: "y < length fm"
    then have y1: "y < length ?fm1" by simp
    note cy = cells[rule_format, OF y1]
    show "length (fm' ! y) = length (fm ! y) \<and>
              (\<forall>x<length (fm ! y).
                 (y \<in> set (y0 # ys) \<and> x \<in> set xs \<longrightarrow> drawn r (fm ! y ! x) (fm' ! y ! x)) \<and>
                 (\<not> (y \<in> set (y0 # ys) \<and> x \<in> set xs) \<longrightarrow> fm' ! y ! x = fm ! y ! x))"
    proof (cases "y = y0")
      case True
      have ly: "length (fm' ! y0) = length (fm ! y0)"
        using cy True by (simp add: fm1_y0 len0)
      have same: "\<And>x. x < length (fm ! y0) \<Longrightarrow> fm' ! y0 ! x = row' ! x"
      proof -
        fix x assume "x < length (fm ! y0)"
        then have "x < length (?fm1 ! y0)" by (simp add: fm1_y0 len0)
        then have "fm' ! y0 ! x = ?fm1 ! y0 ! x"
          using cy True nin by blast
        then show "fm' ! y0 ! x = row' ! x" by (simp add: fm1_y0)
      qed
      have "\<forall>x<length (fm ! y0).
                 (y0 \<in> set (y0 # ys) \<and> x \<in> set xs \<longrightarrow> drawn r (fm ! y0 ! x) (fm' ! y0 ! x)) \<and>
                 (\<not> (y0 \<in> set (y0 # ys) \<and> x \<in> set xs) \<longrightarrow> fm' ! y0 ! x = fm ! y0 ! x)"
      proof (intro allI impI)
        fix x assume x: "x < length (fm ! y0)"
        show "(y0 \<in> set (y0 # ys) \<and> x \<in> set xs \<longrightarrow> drawn r (fm ! y0 ! x) (fm' ! y0 ! x)) \<and>
                 (\<not> (y0 \<in> set (y0 # ys) \<and> x \<in> set xs) \<longrightarrow> fm' ! y0 ! x = fm ! y0 ! x)"
          using cells0[rule_format, OF x] by (simp add: same[OF x])
      qed
      then show ?thesis using ly True by simp
    next
      case False
      have e: "?fm1 ! y = fm ! y" using False by (rule fm1_other)
      have ly: "length (fm' ! y) = length (fm ! y)" using cy by (simp add: e)
      have "\<forall>x<length (fm ! y).
                 (y \<in> set (y0 # ys) \<and> x \<in> set xs \<longrightarrow> drawn r (fm ! y ! x) (fm' ! y ! x)) \<and>
                 (\<not> (y \<in> set (y0 # ys) \<and> x \<in> set xs) \<longrightarrow> fm' ! y ! x = fm ! y ! x)"
      proof (intro allI impI conjI)
        fix x assume x: "x < length (fm ! y)" and m: "y \<in> set (y0 # ys) \<and> x \<in> set xs"
        then have "y \<in> set ys \<and> x \<in> set xs" using False by simp
        moreover have "x < length (?fm1 ! y)" using x by (simp add: e)
        ultimately have "drawn r1 (?fm1 ! y ! x) (fm' ! y ! x)" using cy by blast
        then have "drawn r1 (fm ! y ! x) (fm' ! y ! x)" by (simp add: e)
        then show "drawn r (fm ! y ! x) (fm' ! y ! x)" using later0 by blast
      next
        fix x assume x: "x < length (fm ! y)" and m: "\<not> (y \<in> set (y0 # ys) \<and> x \<in> set xs)"
        then have "\<not> (y \<in> set ys \<and> x \<in> set xs)" by auto
        moreover have "x < length (?fm1 ! y)" using x by (simp add: e)
        ultimately have "fm' ! y ! x = ?fm1 ! y ! x" using cy by blast
        then show "fm' ! y ! x = fm ! y ! x" by (simp add: e)
      qed
      then show ?thesis using ly by simp
    qed
  qed
  have LATER: "\<forall>a b. drawn r' a b \<longrightarrow> drawn r a b"
    using later later0 by blast
  show ?case
    apply (rule exI[of _ fm'], rule exI[of _ r'])
    apply (intro conjI)
       apply (rule L)
      apply (rule LEN)
     apply (rule CELLS)
    apply (rule LATER)
    done
qed


lemma grid_ok_rows: "grid_ok st \<Longrightarrow> y < rows st \<Longrightarrow> length (freezeMap st ! y) = columns st"
  by (simp add: grid_ok_def list_all_length)

lemma grid_okI:
  assumes "length (freezeMap st) = rows st"
    and "\<And>y. y < rows st \<Longrightarrow> length (freezeMap st ! y) = columns st"
  shows "grid_ok st"
  using assms by (simp add: grid_ok_def list_all_length)

lemma diffuseFreeze_grid:
  assumes "grid_ok st"
  shows "\<exists>fm' r'. diffuseFreeze st r = Inr (st\<lparr>freezeMap := fm'\<rparr>, r') \<and>
           length fm' = rows st \<and>
           (\<forall>y<rows st. length (fm' ! y) = columns st \<and>
              (\<forall>x<columns st. drawn r (freezeMap st ! y ! x) (fm' ! y ! x)))"
proof -
  let ?fm = "freezeMap st"
  have len: "length ?fm = rows st" using assms by (simp add: grid_ok_def)
  have a2: "\<forall>y\<in>set [0..<rows st]. y < length ?fm" using len by simp
  have a4: "\<forall>y\<in>set [0..<rows st]. \<forall>x\<in>set [0..<columns st]. x < length (?fm ! y)"
    using grid_ok_rows[OF assms] by simp
  obtain fm' r' where
    l: "for_loop (\<lambda>y. for_loop (diffuse_cell y) [0..<columns st]) [0..<rows st] (?fm, r)
          = Inr (fm', r')" and
    len': "length fm' = length ?fm" and
    cells: "\<forall>y<length ?fm. length (fm' ! y) = length (?fm ! y) \<and>
              (\<forall>x<length (?fm ! y).
                 (y \<in> set [0..<rows st] \<and> x \<in> set [0..<columns st]
                    \<longrightarrow> drawn r (?fm ! y ! x) (fm' ! y ! x)) \<and>
                 (\<not> (y \<in> set [0..<rows st] \<and> x \<in> set [0..<columns st])
                    \<longrightarrow> fm' ! y ! x = ?fm ! y ! x))"
    using diffuse_rows[OF distinct_upt a2 distinct_upt a4, of r] by blast
  have D: "diffuseFreeze st r = Inr (st\<lparr>freezeMap := fm'\<rparr>, r')"
    by (simp add: diffuseFreeze_def l)
  have C: "\<forall>y<rows st. length (fm' ! y) = columns st \<and>
              (\<forall>x<columns st. drawn r (?fm ! y ! x) (fm' ! y ! x))"
  proof (intro allI impI)
    fix y assume y: "y < rows st"
    then have yl: "y < length ?fm" using len by simp
    have rl: "length (?fm ! y) = columns st" using assms y by (rule grid_ok_rows)
    note cy = cells[rule_format, OF yl]
    have "\<forall>x<columns st. drawn r (?fm ! y ! x) (fm' ! y ! x)"
    proof (intro allI impI)
      fix x assume x: "x < columns st"
      then have "x < length (?fm ! y)" using rl by simp
      moreover have "y \<in> set [0..<rows st] \<and> x \<in> set [0..<columns st]" using x y by simp
      ultimately show "drawn r (?fm ! y ! x) (fm' ! y ! x)" using cy by blast
    qed
    moreover have "length (fm' ! y) = columns st" using cy rl by simp
    ultimately show "length (fm' ! y) = columns st \<and>
              (\<forall>x<columns st. drawn r (?fm ! y ! x) (fm' ! y ! x))" by simp
  qed
  have L: "length fm' = rows st" using len len' by simp
  show ?thesis
    apply (rule exI[of _ fm'], rule exI[of _ r'])
    apply (intro conjI)
      apply (rule D)
     apply (rule L)
    apply (rule C)
    done
qed




section \<open>The frame renderer\<close>

lemma draw_column_step:
  assumes "c < length dr"
  shows "\<exists>r'. draw_column st c (dr, out, r) =
           (dr[c := next_row st (dr ! c) c (stl r)],
            out @ [column_paint st (dr ! c) c (shd r)], r')"
proof (cases "cell_state (freezeMap st) (dr ! c) c = 2")
  case True
  then show ?thesis
    by (simp add: draw_column_def column_paint_def next_row_def)
next
  case False
  obtain row' r' where a: "advance (rows st) (dr ! c) (stl r) = (row', r')"
    by (cases "advance (rows st) (dr ! c) (stl r)")
  show ?thesis using False
    by (simp add: draw_column_def column_paint_def next_row_def a)
qed

lemma draw_columns_upto:
  assumes "n \<le> length (drops st)"
  shows "\<exists>dr ps r'. fold (draw_column st) [0..<n] (drops st, out0, r) = (dr, out0 @ ps, r') \<and>
           length dr = length (drops st) \<and> length ps = n \<and>
           (\<forall>c<n. \<exists>rc. ps ! c = column_paint st (drops st ! c) c (shd rc) \<and>
                        dr ! c = next_row st (drops st ! c) c (stl rc)) \<and>
           (\<forall>c<length (drops st). n \<le> c \<longrightarrow> dr ! c = drops st ! c)"
  using assms
proof (induction n)
  case 0
  show ?case by (intro exI[of _ "drops st"] exI[of _ "[]"] exI[of _ r]) simp
next
  case (Suc n)
  then have n: "n < length (drops st)" by simp
  obtain dr ps r1 where
    f: "fold (draw_column st) [0..<n] (drops st, out0, r) = (dr, out0 @ ps, r1)" and
    ld: "length dr = length (drops st)" and lp: "length ps = n" and
    dn: "\<forall>c<n. \<exists>rc. ps ! c = column_paint st (drops st ! c) c (shd rc) \<and>
                        dr ! c = next_row st (drops st ! c) c (stl rc)" and
    rest: "\<forall>c<length (drops st). n \<le> c \<longrightarrow> dr ! c = drops st ! c"
    using Suc.IH n by force
  have drn: "dr ! n = drops st ! n" using rest n by simp
  have nd: "n < length dr" using n ld by simp
  obtain r2 where
    s: "draw_column st n (dr, out0 @ ps, r1) =
           (dr[n := next_row st (dr ! n) n (stl r1)],
            (out0 @ ps) @ [column_paint st (dr ! n) n (shd r1)], r2)"
    using draw_column_step[OF nd] by blast
  let ?dr' = "dr[n := next_row st (drops st ! n) n (stl r1)]"
  let ?ps' = "ps @ [column_paint st (drops st ! n) n (shd r1)]"
  have F: "fold (draw_column st) [0..<Suc n] (drops st, out0, r) = (?dr', out0 @ ?ps', r2)"
    by (simp add: f s drn)
  have D: "\<forall>c<Suc n. \<exists>rc. ?ps' ! c = column_paint st (drops st ! c) c (shd rc) \<and>
                        ?dr' ! c = next_row st (drops st ! c) c (stl rc)"
  proof (intro allI impI)
    fix c assume c: "c < Suc n"
    show "\<exists>rc. ?ps' ! c = column_paint st (drops st ! c) c (shd rc) \<and>
                        ?dr' ! c = next_row st (drops st ! c) c (stl rc)"
    proof (cases "c = n")
      case True
      have "?ps' ! n = column_paint st (drops st ! n) n (shd r1)"
        using lp by (simp add: nth_append)
      moreover have "?dr' ! n = next_row st (drops st ! n) n (stl r1)"
        using nd by simp
      ultimately show ?thesis unfolding True by (intro exI[of _ r1] conjI)
    next
      case False
      then have cn: "c < n" using c by simp
      then obtain rc where "ps ! c = column_paint st (drops st ! c) c (shd rc)"
        "dr ! c = next_row st (drops st ! c) c (stl rc)"
        using dn by blast
      moreover have "?ps' ! c = ps ! c" using cn lp by (simp add: nth_append)
      moreover have "?dr' ! c = dr ! c" using False by simp
      ultimately show ?thesis by (intro exI[of _ rc]) simp
    qed
  qed
  have R: "\<forall>c<length (drops st). Suc n \<le> c \<longrightarrow> ?dr' ! c = drops st ! c"
    using rest by simp
  have LD: "length ?dr' = length (drops st)" using ld by simp
  have LP: "length ?ps' = Suc n" using lp by simp
  show ?case
    apply (rule exI[of _ ?dr'], rule exI[of _ ?ps'], rule exI[of _ r2])
    apply (intro conjI)
        apply (rule F)
       apply (rule LD)
      apply (rule LP)
     apply (rule D)
    apply (rule R)
    done
qed

lemma draw_frame:
  assumes "state_ok st"
  shows "\<exists>dr ps fm' r'.
           draw st r = Inr (st\<lparr>drops := dr, freezeMap := fm'\<rparr>,
             FillRect ''rgba(0, 10, 4, 0.18)'' 0 0 (canvas_width st) (canvas_height st) # ps, r') \<and>
           length dr = columns st \<and> length ps = columns st \<and>
           (\<forall>c<columns st. \<exists>rc. ps ! c = column_paint st (drops st ! c) c (shd rc) \<and>
                        dr ! c = next_row st (drops st ! c) c (stl rc)) \<and>
           length fm' = rows st \<and> (\<forall>y<rows st. length (fm' ! y) = columns st)"
proof -
  let ?bg = "FillRect ''rgba(0, 10, 4, 0.18)'' 0 0 (canvas_width st) (canvas_height st)"
  have ld: "length (drops st) = columns st" and g: "grid_ok st"
    using assms by (simp_all add: state_ok_def)
  have "columns st \<le> length (drops st)" using ld by simp
  then obtain dr ps r1 where
    f: "fold (draw_column st) [0..<columns st] (drops st, [?bg], r) = (dr, [?bg] @ ps, r1)" and
    ldr: "length dr = length (drops st)" and lps: "length ps = columns st" and
    cols: "\<forall>c<columns st. \<exists>rc. ps ! c = column_paint st (drops st ! c) c (shd rc) \<and>
                        dr ! c = next_row st (drops st ! c) c (stl rc)"
    using draw_columns_upto[of "columns st" st "[?bg]" r] by blast
  have dc: "draw_columns st r = (dr, ?bg # ps, r1)"
    using f by (simp add: draw_columns_def)
  have g1: "grid_ok (st\<lparr>drops := dr\<rparr>)" using g by (simp add: grid_ok_def)
  obtain fm' r2 where
    d: "diffuseFreeze (st\<lparr>drops := dr\<rparr>) r1 = Inr (st\<lparr>drops := dr\<rparr>\<lparr>freezeMap := fm'\<rparr>, r2)" and
    lf: "length fm' = rows (st\<lparr>drops := dr\<rparr>)" and
    cf: "\<forall>y<rows (st\<lparr>drops := dr\<rparr>). length (fm' ! y) = columns (st\<lparr>drops := dr\<rparr>) \<and>
              (\<forall>x<columns (st\<lparr>drops := dr\<rparr>).
                 drawn r1 (freezeMap (st\<lparr>drops := dr\<rparr>) ! y ! x) (fm' ! y ! x))"
    using diffuseFreeze_grid[OF g1, of r1] by blast
  have D: "draw st r = Inr (st\<lparr>drops := dr, freezeMap := fm'\<rparr>, ?bg # ps, r2)"
    by (simp add: draw_def dc d)
  have LD: "length dr = columns st" using ldr ld by simp
  have LF: "length fm' = rows st" using lf by simp
  have CF: "\<forall>y<rows st. length (fm' ! y) = columns st" using cf by simp
  show ?thesis
    apply (rule exI[of _ dr], rule exI[of _ ps], rule exI[of _ fm'], rule exI[of _ r2])
    apply (intro conjI)
         apply (rule D)
        apply (rule LD)
       apply (rule lps)
      apply (rule cols)
     apply (rule LF)
    apply (rule CF)
    done
qed


lemma advance_cases: "fst (advance rs row r) = 0 \<or> fst (advance rs row r) = row + 1"
  by (simp add: advance_def)

lemma advance_past: "rs < row \<Longrightarrow> fst (advance rs row r) = 0"
  by (simp add: advance_def)

lemma advance_bound: "fst (advance rs row r) \<le> rs + 1"
  by (simp add: advance_def)

lemma next_row_cases:
  "next_row st row c r = row \<or> next_row st row c r = 0 \<or> next_row st row c r = row + 1"
  using advance_cases[of "rows st" row r] by (auto simp: next_row_def)

lemma cell_state_eq:
  "cell_state fm row column =
     (if row < length fm \<and> column < length (fm ! row) then fm ! row ! column else 0)"
  by (simp add: cell_state_def js_index_def)

lemma next_row_past:
  assumes "length (freezeMap st) = rows st" and "rows st < row"
  shows "next_row st row c r = 0"
proof -
  have "cell_state (freezeMap st) row c = 0" using assms by (simp add: cell_state_eq)
  then show ?thesis using assms(2) by (simp add: next_row_def advance_past)
qed

lemma next_row_bound:
  assumes "row \<le> rows st + 1"
  shows "next_row st row c r \<le> rows st + 1"
  using assms advance_bound[of "rows st" row r] by (simp add: next_row_def)





text \<open>
  Claim C8. The lookup \<open>freezeMap[row]?.[column] ?? 0\<close> has a value for every row and
  column: the cell inside the grid, 0 outside. So a cursor at or beyond \<open>rows\<close> reads the
  idle state, and a frame on a well-formed state returns normally whatever the cursor
  values are.
\<close>

theorem lookup_total:
  assumes "state_ok st"
  shows "(\<exists>st' out r'. draw st r = Inr (st', out, r')) \<and>
         (\<forall>c<columns st. rows st \<le> drops st ! c \<longrightarrow>
            cell_state (freezeMap st) (drops st ! c) c = 0) \<and>
         cell_state fm row column =
           (if row < length fm \<and> column < length (fm ! row) then fm ! row ! column else 0)"
proof -
  have 1: "\<exists>st' out r'. draw st r = Inr (st', out, r')"
    using draw_frame[OF assms, of r] by blast
  have l: "length (freezeMap st) = rows st" using assms by (simp add: state_ok_def grid_ok_def)
  have 2: "\<forall>c<columns st. rows st \<le> drops st ! c \<longrightarrow>
            cell_state (freezeMap st) (drops st ! c) c = 0"
    using l by (simp add: cell_state_eq)
  show ?thesis using 1 2 cell_state_eq by (intro conjI)
qed

text \<open>
  A cursor at row 5 of 2 rows reads 0 and is reset; a cursor at row 2 goes to 3.
\<close>

theorem lookup_total_witness:
  "cell_state [[1, 1], [1, 2]] 5 0 = 0 \<and>
   (case draw \<lparr>canvas_width = 28, canvas_height = 28, columns = 2, rows = 2, drops = [5, 2],
          freezeMap = [[1, 1], [1, 2]]\<rparr> (sconst (1 / 2)) of
      Inl e \<Rightarrow> [] | Inr (st', out, r') \<Rightarrow> drops st') = [0, 3]"
proof -
  let ?st = "\<lparr>canvas_width = 28, canvas_height = 28, columns = 2, rows = 2, drops = [5, 2],
          freezeMap = [[1, 1], [1, 2]]\<rparr>"
  have ok: "state_ok ?st" by (simp add: state_ok_def grid_ok_def)
  from lookup_total [OF ok, of "sconst (1 / 2)" "[[1, 1], [1, 2]]" 5 0] show ?thesis
    by (simp add: draw_def draw_columns_def draw_column_def cell_state_def js_index_def
        advance_def fontSize_def glyph_def diffuseFreeze_def diffuse_cell_def upt_rec
        freezeSpeed_def)
qed


section \<open>The states of the program\<close>

lemma random_row_less:
  assumes "0 \<le> u" and "u < 1" and "0 < rs"
  shows "random_row rs u < rs"
proof -
  have "u * real rs < real rs" using assms by simp
  then have "\<lfloor>u * real rs\<rfloor> < int rs" by (simp add: floor_less_iff)
  moreover have "0 \<le> \<lfloor>u * real rs\<rfloor>" using assms by simp
  ultimately show ?thesis by (simp add: random_row_def nat_less_iff)
qed

lemma resizeCanvas_rows_pos: "20 \<le> rows (fst (resizeCanvas w h r))"
proof -
  let ?st = "fst (resizeCanvas w h r)"
  have "canvas_height ?st \<le> fontSize * rows ?st"
    using ceil_cells[of "canvas_height ?st"] by (simp only: resizeCanvas_fields)
  moreover have "280 \<le> canvas_height ?st" by (simp add: resizeCanvas_fields)
  ultimately show ?thesis by (simp add: fontSize_def)
qed

lemma resizeCanvas_columns_pos: "18 \<le> columns (fst (resizeCanvas w h r))"
proof -
  let ?st = "fst (resizeCanvas w h r)"
  have "canvas_width ?st \<le> fontSize * columns ?st"
    using ceil_cells[of "canvas_width ?st"] by (simp only: resizeCanvas_fields)
  moreover have "240 \<le> canvas_width ?st" by (simp add: resizeCanvas_fields)
  ultimately show ?thesis by (simp add: fontSize_def)
qed

lemma stake_sset: "u \<in> set (stake n r) \<Longrightarrow> u \<in> sset r"
proof (induction n arbitrary: r)
  case 0
  then show ?case by simp
next
  case (Suc n)
  then have "u = shd r \<or> u \<in> set (stake n (stl r))" by simp
  then show ?case
  proof
    assume "u = shd r"
    then show ?thesis using shd_sset by simp
  next
    assume "u \<in> set (stake n (stl r))"
    then have "u \<in> sset (stl r)" by (rule Suc.IH)
    then show ?thesis by (rule stl_sset)
  qed
qed

lemma stake_draws:
  assumes "\<forall>u\<in>sset r. P u"
  shows "\<forall>u\<in>set (stake n r). P u"
proof
  fix u assume "u \<in> set (stake n r)"
  then have "u \<in> sset r" by (rule stake_sset)
  then show "P u" using assms by (rule_tac bspec)
qed

lemma resizeCanvas_drops:
  assumes "\<forall>u\<in>sset r. 0 \<le> u \<and> u < 1"
  shows "\<forall>d\<in>set (drops (fst (resizeCanvas w h r))). d < rows (fst (resizeCanvas w h r))"
proof -
  let ?st = "fst (resizeCanvas w h r)"
  have pos: "0 < rows ?st" using resizeCanvas_rows_pos[of w h r] by simp
  have us: "\<forall>u\<in>set (stake (columns ?st) r). 0 \<le> u \<and> u < 1"
    using assms by (rule stake_draws)
  have d: "drops ?st = map (random_row (rows ?st)) (stake (columns ?st) r)"
    by (rule resizeCanvas_fields)
  show ?thesis
  proof
    fix x assume "x \<in> set (drops ?st)"
    then obtain u where u: "u \<in> set (stake (columns ?st) r)" and x: "x = random_row (rows ?st) u"
      unfolding d by auto
    have "0 \<le> u \<and> u < 1" using us u by (rule bspec)
    then show "x < rows ?st" unfolding x using pos by (simp add: random_row_less)
  qed
qed

lemma resizeCanvas_ok: "state_ok (fst (resizeCanvas w h r))"
proof -
  let ?st = "fst (resizeCanvas w h r)"
  have f: "freezeMap ?st = replicate (rows ?st) (replicate (columns ?st) 0)"
    by (rule resizeCanvas_fields)
  have d: "drops ?st = map (random_row (rows ?st)) (stake (columns ?st) r)"
    by (rule resizeCanvas_fields)
  have "grid_ok ?st" unfolding grid_ok_def f by (simp add: list_all_length)
  moreover have "length (drops ?st) = columns ?st" unfolding d by simp
  ultimately show ?thesis by (simp add: state_ok_def)
qed

lemma drawTargetToMap_keeps:
  assumes "drawTargetToMap localCtx txt st = Inr st'" and "state_ok st"
  shows "state_ok st' \<and> drops st' = drops st \<and> rows st' = rows st \<and> columns st' = columns st"
proof (cases localCtx)
  case None
  then have "st' = st" using assms(1) by (simp add: drawTargetToMap_def)
  then show ?thesis using assms(2) by simp
next
  case (Some ctx)
  let ?d = "ctx (raster_request_of (columns st) (rows st) (lines_of txt))"
  have e: "st' = st\<lparr>freezeMap := target_grid ?d (columns st) (rows st)\<rparr>"
    using assms(1) Some by (simp add: drawTargetToMap_def split: if_splits)
  have "grid_ok st'" unfolding e
    by (intro grid_okI) (simp_all add: target_grid_cells)
  then show ?thesis using assms(2) by (simp add: state_ok_def e)
qed

lemma draw_keeps:
  assumes "draw st r = Inr (st', out, r')" and "state_ok st"
    and "\<forall>d\<in>set (drops st). d \<le> rows st + 1"
  shows "state_ok st' \<and> rows st' = rows st \<and> columns st' = columns st \<and>
         (\<forall>d\<in>set (drops st'). d \<le> rows st' + 1) \<and>
         (\<forall>c<columns st.
            (drops st' ! c = drops st ! c \<or> drops st' ! c = 0 \<or> drops st' ! c = drops st ! c + 1) \<and>
            (rows st < drops st ! c \<longrightarrow> drops st' ! c = 0))"
proof -
  obtain dr ps fm' r2 where
    D: "draw st r = Inr (st\<lparr>drops := dr, freezeMap := fm'\<rparr>,
             FillRect ''rgba(0, 10, 4, 0.18)'' 0 0 (canvas_width st) (canvas_height st) # ps, r2)" and
    ld: "length dr = columns st" and
    cols: "\<forall>c<columns st. \<exists>rc. ps ! c = column_paint st (drops st ! c) c (shd rc) \<and>
                        dr ! c = next_row st (drops st ! c) c (stl rc)" and
    lf: "length fm' = rows st" and cf: "\<forall>y<rows st. length (fm' ! y) = columns st"
    using draw_frame[OF assms(2), of r] by blast
  have e: "st' = st\<lparr>drops := dr, freezeMap := fm'\<rparr>" using D assms(1) by simp
  have lfm: "length (freezeMap st) = rows st" and ldrops: "length (drops st) = columns st"
    using assms(2) by (simp_all add: state_ok_def grid_ok_def)
  have g: "grid_ok st'" unfolding e using lf cf by (intro grid_okI) simp_all
  have ok: "state_ok st'" using g ld by (simp add: state_ok_def e)
  have step: "\<forall>c<columns st.
            (dr ! c = drops st ! c \<or> dr ! c = 0 \<or> dr ! c = drops st ! c + 1) \<and>
            (rows st < drops st ! c \<longrightarrow> dr ! c = 0) \<and> dr ! c \<le> rows st + 1"
  proof (intro allI impI)
    fix c assume c: "c < columns st"
    then obtain rc where n: "dr ! c = next_row st (drops st ! c) c (stl rc)"
      using cols by blast
    have "drops st ! c \<in> set (drops st)" using c ldrops by simp
    then have b: "drops st ! c \<le> rows st + 1" using assms(3) by (rule_tac bspec)
    have 1: "dr ! c = drops st ! c \<or> dr ! c = 0 \<or> dr ! c = drops st ! c + 1"
      unfolding n by (rule next_row_cases)
    have 2: "rows st < drops st ! c \<longrightarrow> dr ! c = 0"
      unfolding n using lfm by (simp add: next_row_past)
    have 3: "dr ! c \<le> rows st + 1" unfolding n using b by (rule next_row_bound)
    show "(dr ! c = drops st ! c \<or> dr ! c = 0 \<or> dr ! c = drops st ! c + 1) \<and>
            (rows st < drops st ! c \<longrightarrow> dr ! c = 0) \<and> dr ! c \<le> rows st + 1"
      using 1 2 3 by (intro conjI)
  qed
  have bound: "\<forall>d\<in>set (drops st'). d \<le> rows st' + 1"
  proof
    fix d assume "d \<in> set (drops st')"
    then obtain c where "c < length dr" "d = dr ! c"
      unfolding e by (auto simp: in_set_conv_nth)
    then show "d \<le> rows st' + 1" using step ld by (simp add: e)
  qed
  have cases: "\<forall>c<columns st.
            (drops st' ! c = drops st ! c \<or> drops st' ! c = 0 \<or> drops st' ! c = drops st ! c + 1) \<and>
            (rows st < drops st ! c \<longrightarrow> drops st' ! c = 0)"
    using step by (simp add: e)
  have rc: "rows st' = rows st" "columns st' = columns st" by (simp_all add: e)
  show ?thesis using ok rc bound cases by (intro conjI)
qed

lemma reachable_ok:
  assumes "reachable st"
  shows "state_ok st \<and> (\<forall>d\<in>set (drops st). d \<le> rows st + 1)"
  using assms
proof (induction rule: reachable.induct)
  case (resized r w h)
  have "\<forall>d\<in>set (drops (fst (resizeCanvas w h r))). d < rows (fst (resizeCanvas w h r))"
    using resized by (rule resizeCanvas_drops)
  then have "\<forall>d\<in>set (drops (fst (resizeCanvas w h r))). d \<le> rows (fst (resizeCanvas w h r)) + 1"
    by (simp add: less_imp_le_nat le_SucI)
  then show ?case using resizeCanvas_ok by (intro conjI)
next
  case (retargeted st localCtx tx st')
  then have k: "state_ok st' \<and> drops st' = drops st \<and> rows st' = rows st \<and> columns st' = columns st"
    using drawTargetToMap_keeps by blast
  then show ?case using retargeted.IH by simp
next
  case (frame st r st' out r')
  then show ?case using draw_keeps[of st r st' out r'] by blast
qed

text \<open>
  Claim C10. In every state of the program the bank has one cursor per column and every
  cursor is at most \<open>rows + 1\<close>. A frame from such a state returns normally, and leaves
  each cursor unchanged, at 0 or one higher; a cursor above \<open>rows\<close> is at 0 after the
  frame. After \<open>resizeCanvas\<close> every cursor is below \<open>rows\<close>.
\<close>

theorem cursor_bank_bounded:
  assumes "reachable st"
  shows "length (drops st) = columns st \<and>
         (\<forall>d\<in>set (drops st). d \<le> rows st + 1) \<and>
         (\<forall>r. \<exists>st' out r'. draw st r = Inr (st', out, r') \<and> reachable st' \<and>
            (\<forall>c<columns st.
               (drops st' ! c = drops st ! c \<or> drops st' ! c = 0 \<or>
                drops st' ! c = drops st ! c + 1) \<and>
               (rows st < drops st ! c \<longrightarrow> drops st' ! c = 0))) \<and>
         (\<forall>w h r. (\<forall>u\<in>sset r. 0 \<le> u \<and> u < 1) \<longrightarrow>
            reachable (fst (resizeCanvas w h r)) \<and>
            (\<forall>d\<in>set (drops (fst (resizeCanvas w h r))). d < rows (fst (resizeCanvas w h r))))"
proof -
  have ok: "state_ok st" and b: "\<forall>d\<in>set (drops st). d \<le> rows st + 1"
    using reachable_ok[OF assms] by simp_all
  have 1: "length (drops st) = columns st" using ok by (simp add: state_ok_def)
  have 3: "\<forall>r. \<exists>st' out r'. draw st r = Inr (st', out, r') \<and> reachable st' \<and>
            (\<forall>c<columns st.
               (drops st' ! c = drops st ! c \<or> drops st' ! c = 0 \<or>
                drops st' ! c = drops st ! c + 1) \<and>
               (rows st < drops st ! c \<longrightarrow> drops st' ! c = 0))"
  proof
    fix r
    obtain dr ps fm' r2 where
      D: "draw st r = Inr (st\<lparr>drops := dr, freezeMap := fm'\<rparr>,
             FillRect ''rgba(0, 10, 4, 0.18)'' 0 0 (canvas_width st) (canvas_height st) # ps, r2)"
      using draw_frame[OF ok, of r] by blast
    let ?st' = "st\<lparr>drops := dr, freezeMap := fm'\<rparr>"
    have R: "reachable ?st'" using assms D by (rule reachable.frame)
    have C: "\<forall>c<columns st.
               (drops ?st' ! c = drops st ! c \<or> drops ?st' ! c = 0 \<or>
                drops ?st' ! c = drops st ! c + 1) \<and>
               (rows st < drops st ! c \<longrightarrow> drops ?st' ! c = 0)"
      using draw_keeps[OF D ok b] by (elim conjE)
    show "\<exists>st' out r'. draw st r = Inr (st', out, r') \<and> reachable st' \<and>
            (\<forall>c<columns st.
               (drops st' ! c = drops st ! c \<or> drops st' ! c = 0 \<or>
                drops st' ! c = drops st ! c + 1) \<and>
               (rows st < drops st ! c \<longrightarrow> drops st' ! c = 0))"
      using D R C by (intro exI conjI)
  qed
  have 4: "\<forall>w h r. (\<forall>u\<in>sset r. 0 \<le> u \<and> u < 1) \<longrightarrow>
            reachable (fst (resizeCanvas w h r)) \<and>
            (\<forall>d\<in>set (drops (fst (resizeCanvas w h r))). d < rows (fst (resizeCanvas w h r)))"
    using reachable.resized resizeCanvas_drops by (intro allI impI conjI)
  show ?thesis using 1 b 3 4 by (intro conjI)
qed

text \<open>
  The state after \<open>resizeCanvas\<close> on the minimum surface.
\<close>

theorem cursor_bank_bounded_witness:
  "length (drops (fst (resizeCanvas 240 280 (sconst (1 / 2))))) =
     columns (fst (resizeCanvas 240 280 (sconst (1 / 2)))) \<and>
   columns (fst (resizeCanvas 240 280 (sconst (1 / 2)))) = 18 \<and>
   rows (fst (resizeCanvas 240 280 (sconst (1 / 2)))) = 20"
proof -
  have "\<forall>u\<in>sset (sconst (1 / 2 :: real)). 0 \<le> u \<and> u < 1" by simp
  then have r: "reachable (fst (resizeCanvas 240 280 (sconst (1 / 2))))"
    by (rule reachable.resized)
  have c: "columns (fst (resizeCanvas 240 280 (sconst (1 / 2)))) = 18"
    "rows (fst (resizeCanvas 240 280 (sconst (1 / 2)))) = 20"
    by (simp_all add: resizeCanvas_fields fontSize_def)
  from cursor_bank_bounded [OF r, THEN conjunct1] c show ?thesis by (intro conjI)
qed

end
